theory Spec2Isabelle
  imports Main "HOL-Library.AList" "HOL-Library.Sublist"
    "HOL-Library.List_Lexorder" "HOL-Library.Char_ord"
begin

section \<open>The file system\<close>

text \<open>
  The selective tree copier of \<^verbatim>\<open>scripts/create_release.py\<close> works on one file
  system: the source and the destination are two places of the same store, and nothing
  in the code keeps them apart. The store is an association list from paths to nodes.
  A path is the sequence of its components, read from the current directory, which is
  the empty sequence; \<^verbatim>\<open>a + os.path.sep + b\<close> is the concatenation of the two
  sequences. The order of the association list is the order in which a directory hands
  out its entries.
\<close>

type_synonym path = "string list"

record stat =
  st_mtime :: int
  st_mode :: nat

datatype node = File string stat | Dir

type_synonym fs = "(path \<times> node) list"

datatype error =
  FileNotFoundError | FileExistsError | NotADirectoryError | IsADirectoryError | SameFileError

text \<open>
  An exception leaves the file system as it is at the moment it is raised, so a failed
  operation carries the state it stopped in.
\<close>

datatype result = Ok fs | Raise error fs

fun state_of :: "result \<Rightarrow> fs" where
  "state_of (Ok fs) = fs"
| "state_of (Raise e fs) = fs"

text \<open>The current directory always exists and is a directory.\<close>

definition lookup :: "fs \<Rightarrow> path \<Rightarrow> node option" where
  "lookup fs p = (if p = [] then Some Dir else map_of fs p)"

definition path_exists :: "fs \<Rightarrow> path \<Rightarrow> bool" where
  "path_exists fs p = (lookup fs p \<noteq> None)"

definition isdir :: "fs \<Rightarrow> path \<Rightarrow> bool" where
  "isdir fs p = (lookup fs p = Some Dir)"

definition isfile :: "fs \<Rightarrow> path \<Rightarrow> bool" where
  "isfile fs p = (case lookup fs p of Some (File c m) \<Rightarrow> True | _ \<Rightarrow> False)"

text \<open>
  \<^verbatim>\<open>os.listdir\<close>: the names of the entries of a directory, each once, in the order the
  store keeps them. No order is promised by the library.
\<close>

definition listdir :: "fs \<Rightarrow> path \<Rightarrow> string list" where
  "listdir fs p = remdups (map last (filter (\<lambda>q. q \<noteq> [] \<and> butlast q = p) (map fst fs)))"

definition basename :: "path \<Rightarrow> string" where
  "basename p = (if p = [] then [] else last p)"

text \<open>
  \<^verbatim>\<open>os.mkdir\<close>: the parent has to be an existing directory and the path itself must be
  free.
\<close>

definition mkdir :: "fs \<Rightarrow> path \<Rightarrow> result" where
  "mkdir fs p =
     (if p = [] then Raise FileExistsError fs
      else if \<not> path_exists fs (butlast p) then Raise FileNotFoundError fs
      else if \<not> isdir fs (butlast p) then Raise NotADirectoryError fs
      else if path_exists fs p then Raise FileExistsError fs
      else Ok (AList.update p Dir fs))"

text \<open>
  \<^verbatim>\<open>os.makedirs(name)\<close> with \<^verbatim>\<open>exist_ok=False\<close>: when the parent is missing it is made
  first, by the same function (a \<^verbatim>\<open>FileExistsError\<close> of that inner call is swallowed),
  then the leaf is made with \<^verbatim>\<open>mkdir\<close>.
\<close>

function makedirs :: "fs \<Rightarrow> path \<Rightarrow> result" where
  "makedirs fs p =
     (if p \<noteq> [] \<and> \<not> path_exists fs (butlast p) then
        (case makedirs fs (butlast p) of
           Ok fs' \<Rightarrow> mkdir fs' p
         | Raise e fs' \<Rightarrow> if e = FileExistsError then mkdir fs' p else Raise e fs')
      else mkdir fs p)"
  by pat_completeness auto
termination
  by (relation "measure (\<lambda>(fs, p). length p)") auto

text \<open>
  \<^verbatim>\<open>shutil.copy2(src, dst)\<close>: a destination that is a directory stands for the entry of
  the source's base name inside it. Copying a file onto itself is refused, the source has
  to be a file, the destination's parent a directory and the destination itself no
  directory. The destination then holds the content and the metadata of the source.
\<close>

definition copy2 :: "fs \<Rightarrow> path \<Rightarrow> path \<Rightarrow> result" where
  "copy2 fs src dst =
     (let dst' = (if isdir fs dst then dst @ [basename src] else dst) in
      if path_exists fs src \<and> src = dst' then Raise SameFileError fs
      else
        (case lookup fs src of
           None \<Rightarrow> Raise FileNotFoundError fs
         | Some Dir \<Rightarrow> Raise IsADirectoryError fs
         | Some (File c m) \<Rightarrow>
             if \<not> path_exists fs (butlast dst') then Raise FileNotFoundError fs
             else if \<not> isdir fs (butlast dst') then Raise NotADirectoryError fs
             else if isdir fs dst' then Raise IsADirectoryError fs
             else Ok (AList.update dst' (File c m) fs)))"

section \<open>The selective tree copier\<close>

text \<open>
  \<^verbatim>\<open>os.path.dirname(targetBase + os.path.sep + relative)\<close>: the target without its last
  component. With an empty \<^verbatim>\<open>relative\<close> the string ends in the separator and its
  directory name is \<^verbatim>\<open>targetBase\<close> itself.
\<close>

definition dirname_target :: "path \<Rightarrow> path \<Rightarrow> path" where
  "dirname_target targetBase relative =
     (if relative = [] then targetBase else butlast (targetBase @ relative))"

text \<open>
  The \<^verbatim>\<open>for child in os.listdir(source)\<close> loop: the children are taken from a listing
  made once, the body runs on the state the previous child left, and the first exception
  ends the loop. \<open>None\<close> is a body that did not return.
\<close>

fun for_each :: "'a list \<Rightarrow> ('a \<Rightarrow> fs \<Rightarrow> result option) \<Rightarrow> fs \<Rightarrow> result option" where
  "for_each [] body fs = Some (Ok fs)"
| "for_each (c # cs) body fs =
     (case body c fs of
        None \<Rightarrow> None
      | Some (Raise e fs') \<Rightarrow> Some (Raise e fs')
      | Some (Ok fs') \<Rightarrow> for_each cs body fs')"

text \<open>
  \<^verbatim>\<open>copyNotGitignoreTree(sourceBase, targetBase, relative, gitignore)\<close>. The recursion
  follows the directories of a file system that the function itself writes to, so it
  is given fuel: the first argument bounds the depth of the recursion, and \<open>None\<close> is a
  run that needs more. A source that is no directory (a file or nothing at all) is
  first put to the exclusion predicate; only then the parent of the target is made and
  the file copied. With an empty \<^verbatim>\<open>relative\<close> the source string ends in the separator,
  which no file answers to: opening it fails.
\<close>

fun copyNotGitignoreTree ::
  "nat \<Rightarrow> path \<Rightarrow> path \<Rightarrow> path \<Rightarrow> (path \<Rightarrow> bool) \<Rightarrow> fs \<Rightarrow> result option" where
  "copyNotGitignoreTree 0 sourceBase targetBase relative gitignore fs = None"
| "copyNotGitignoreTree (Suc n) sourceBase targetBase relative gitignore fs =
     (let source = sourceBase @ relative;
          target = targetBase @ relative in
      if isdir fs source then
        for_each (listdir fs source)
          (\<lambda>child. copyNotGitignoreTree n sourceBase targetBase (relative @ [child]) gitignore) fs
      else if gitignore relative then Some (Ok fs)
      else
        (case (if \<not> isdir fs (dirname_target targetBase relative)
               then makedirs fs (dirname_target targetBase relative) else Ok fs) of
           Raise e fs1 \<Rightarrow> Some (Raise e fs1)
         | Ok fs1 \<Rightarrow>
             if relative = [] then
               Some (Raise (if path_exists fs1 source then NotADirectoryError
                            else FileNotFoundError) fs1)
             else Some (copy2 fs1 source target)))"

section \<open>Relations between two states of the file system\<close>

text \<open>
  What \<^verbatim>\<open>os.makedirs(p)\<close> may do to the file system: an entry either stays as it is, or
  it was missing, lies on the way to \<open>p\<close> and is now a directory.
\<close>

definition made :: "path \<Rightarrow> fs \<Rightarrow> fs \<Rightarrow> bool" where
  "made p fs fs' =
     (\<forall>q. lookup fs' q = lookup fs q \<or>
          (lookup fs q = None \<and> lookup fs' q = Some Dir \<and> prefix q p))"

definition kept :: "fs \<Rightarrow> fs \<Rightarrow> bool" where
  "kept fs fs' = (\<forall>q. (isdir fs q \<longrightarrow> isdir fs' q) \<and> (isfile fs q \<longrightarrow> isfile fs' q))"

definition confined :: "path \<Rightarrow> fs \<Rightarrow> fs \<Rightarrow> bool" where
  "confined t fs fs' =
     (\<forall>q. lookup fs' q = lookup fs q \<or> prefix t q \<or>
          (lookup fs q = None \<and> lookup fs' q = Some Dir \<and> strict_prefix q t))"

definition reach :: "fs \<Rightarrow> path \<Rightarrow> path \<Rightarrow> bool" where
  "reach fs p x = (\<forall>k < length x. isdir fs (p @ take k x))"

definition deepest :: "fs \<Rightarrow> nat" where
  "deepest fs = foldr (\<lambda>e. max (length (fst e))) fs 0"

text \<open>
  Where \<^verbatim>\<open>shutil.copy2(src, dst)\<close> puts the file: at \<open>dst\<close>, or inside it when \<open>dst\<close> is a
  directory.
\<close>

definition landing :: "fs \<Rightarrow> path \<Rightarrow> path \<Rightarrow> path" where
  "landing fs src dst = (if isdir fs dst then dst @ [basename src] else dst)"

text \<open>A file system is well formed when every entry lies in a directory.\<close>

definition well_formed :: "fs \<Rightarrow> bool" where
  "well_formed fs = (\<forall>q. q \<noteq> [] \<and> path_exists fs q \<longrightarrow> isdir fs (butlast q))"


text \<open>
  The files a run copies: those the walk reaches below the source path, through
  directories only, and that the predicate does not exclude.
\<close>

definition copied :: "path \<Rightarrow> (path \<Rightarrow> bool) \<Rightarrow> fs \<Rightarrow> path \<Rightarrow> path \<Rightarrow> bool" where
  "copied sourceBase g fs relative x =
     (reach fs (sourceBase @ relative) x \<and> isfile fs (sourceBase @ relative @ x)
      \<and> \<not> g (relative @ x))"

text \<open>
  What a run writes, told from the file system it starts on: the landing place of a
  copied file takes the file, and a missing path on the way to the mirrored path of a
  copied file becomes a directory.
\<close>

definition written ::
  "path \<Rightarrow> path \<Rightarrow> (path \<Rightarrow> bool) \<Rightarrow> fs \<Rightarrow> path \<Rightarrow> path \<Rightarrow> node option \<Rightarrow> bool" where
  "written sourceBase targetBase g fs relative q v =
     ((\<exists>x. copied sourceBase g fs relative x
           \<and> q = landing fs (sourceBase @ relative @ x) (targetBase @ relative @ x)
           \<and> v = lookup fs (sourceBase @ relative @ x))
      \<or> (lookup fs q = None \<and> v = Some Dir
          \<and> (\<exists>x. copied sourceBase g fs relative x
                \<and> strict_prefix q (targetBase @ relative @ x))))"

section \<open>A small file system to run the copier on\<close>

text \<open>
  The tree of the specification's scenario: \<^verbatim>\<open>src/a/b.txt\<close> and \<^verbatim>\<open>src/a/ignore.log\<close>,
  an empty destination \<^verbatim>\<open>dst\<close>, and a predicate that excludes the names ending in
  \<^verbatim>\<open>.log\<close>.
\<close>

definition example_fs :: fs where
  "example_fs =
     [([''src''], Dir),
      ([''src'', ''a''], Dir),
      ([''src'', ''a'', ''b.txt''], File ''hello'' \<lparr>st_mtime = 1700000000, st_mode = 420\<rparr>),
      ([''src'', ''a'', ''ignore.log''], File ''noise'' \<lparr>st_mtime = 1700000001, st_mode = 384\<rparr>),
      ([''dst''], Dir)]"

definition log_excluded :: "path \<Rightarrow> bool" where
  "log_excluded p = (p \<noteq> [] \<and> drop (length (last p) - 4) (last p) = ''.log'')"

text \<open>
  The same tree with a destination that is not empty: \<^verbatim>\<open>dst/a/ignore.log\<close> is there
  before the copy.
\<close>

definition prefilled_fs :: fs where
  "prefilled_fs =
     [([''src''], Dir),
      ([''src'', ''a''], Dir),
      ([''src'', ''a'', ''b.txt''], File ''hello'' \<lparr>st_mtime = 1700000000, st_mode = 420\<rparr>),
      ([''src'', ''a'', ''ignore.log''], File ''noise'' \<lparr>st_mtime = 1700000001, st_mode = 384\<rparr>),
      ([''dst''], Dir),
      ([''dst'', ''a''], Dir),
      ([''dst'', ''a'', ''ignore.log''], File ''kept'' \<lparr>st_mtime = 1600000000, st_mode = 420\<rparr>)]"

text \<open>
  A destination where a directory sits at the place the file \<^verbatim>\<open>src/f\<close> is mirrored to.
\<close>

definition occupied_fs :: fs where
  "occupied_fs =
     [([''src''], Dir),
      ([''src'', ''f''], File ''new'' \<lparr>st_mtime = 1700000000, st_mode = 420\<rparr>),
      ([''dst''], Dir),
      ([''dst'', ''f''], Dir),
      ([''dst'', ''f'', ''f''], File ''old'' \<lparr>st_mtime = 1600000000, st_mode = 384\<rparr>)]"




text \<open>
  One tree in two file systems: the directory \<^verbatim>\<open>src/d\<close> hands out \<^verbatim>\<open>b.txt\<close> before
  \<^verbatim>\<open>a.txt\<close> in the first and after it in the second.
\<close>

definition unsorted_fs :: fs where
  "unsorted_fs =
     [([''src''], Dir),
      ([''src'', ''d''], Dir),
      ([''src'', ''d'', ''b.txt''], File ''bb'' \<lparr>st_mtime = 1700000000, st_mode = 420\<rparr>),
      ([''src'', ''d'', ''a.txt''], File ''aa'' \<lparr>st_mtime = 1700000001, st_mode = 420\<rparr>),
      ([''dst''], Dir)]"

definition sorted_fs :: fs where
  "sorted_fs =
     [([''src''], Dir),
      ([''src'', ''d''], Dir),
      ([''src'', ''d'', ''a.txt''], File ''aa'' \<lparr>st_mtime = 1700000001, st_mode = 420\<rparr>),
      ([''src'', ''d'', ''b.txt''], File ''bb'' \<lparr>st_mtime = 1700000000, st_mode = 420\<rparr>),
      ([''dst''], Dir)]"

section \<open>The three branches of the copier\<close>

lemma copy_dir:
  "isdir fs (sourceBase @ relative) \<Longrightarrow>
   copyNotGitignoreTree (Suc n) sourceBase targetBase relative gitignore fs =
     for_each (listdir fs (sourceBase @ relative))
       (\<lambda>child. copyNotGitignoreTree n sourceBase targetBase (relative @ [child]) gitignore) fs"
  by (simp only: copyNotGitignoreTree.simps Let_def if_True)

lemma copy_excluded:
  "\<not> isdir fs (sourceBase @ relative) \<Longrightarrow> gitignore relative \<Longrightarrow>
   copyNotGitignoreTree (Suc n) sourceBase targetBase relative gitignore fs = Some (Ok fs)"
  by (simp only: copyNotGitignoreTree.simps Let_def if_True if_False)

lemma copy_leaf:
  "\<not> isdir fs (sourceBase @ relative) \<Longrightarrow> \<not> gitignore relative \<Longrightarrow>
   copyNotGitignoreTree (Suc n) sourceBase targetBase relative gitignore fs =
     (case (if \<not> isdir fs (dirname_target targetBase relative)
            then makedirs fs (dirname_target targetBase relative) else Ok fs) of
        Raise e fs1 \<Rightarrow> Some (Raise e fs1)
      | Ok fs1 \<Rightarrow>
          if relative = [] then
            Some (Raise (if path_exists fs1 (sourceBase @ relative) then NotADirectoryError
                         else FileNotFoundError) fs1)
          else Some (copy2 fs1 (sourceBase @ relative) (targetBase @ relative)))"
  by (simp only: copyNotGitignoreTree.simps Let_def if_True if_False)

declare copyNotGitignoreTree.simps(2) [simp del]
declare makedirs.simps [simp del]

section \<open>The primitive operations\<close>

lemma lookup_Nil [simp]: "lookup fs [] = Some Dir"
  by (simp add: lookup_def)

lemma isdir_Nil [simp]: "isdir fs []"
  by (simp add: isdir_def)

lemma path_exists_Nil [simp]: "path_exists fs []"
  by (simp add: path_exists_def)

lemma lookup_update:
  "lookup (AList.update p v fs) q =
     (if q = [] then Some Dir else if q = p then Some v else lookup fs q)"
  by (simp add: lookup_def update_conv')

lemma mkdir_Ok_iff:
  "mkdir fs p = Ok fs' \<longleftrightarrow>
     p \<noteq> [] \<and> isdir fs (butlast p) \<and> \<not> path_exists fs p \<and> fs' = AList.update p Dir fs"
  by (auto simp: mkdir_def path_exists_def isdir_def)

lemma mkdir_Raise: "mkdir fs p = Raise e fs' \<Longrightarrow> fs' = fs"
  by (auto simp: mkdir_def split: if_splits)

lemma made_refl: "made p fs fs"
  by (simp add: made_def)

lemma made_mkdir: "made p fs (state_of (mkdir fs p))"
  by (auto simp: made_def mkdir_def lookup_update path_exists_def)

lemma made_trans: "made p a b \<Longrightarrow> made p b c \<Longrightarrow> made p a c"
  unfolding made_def by (metis option.distinct(1))

lemma made_butlast: "made (butlast p) a b \<Longrightarrow> made p a b"
  unfolding made_def by (metis prefix_order.trans prefixeq_butlast)

lemma made_makedirs: "made p fs (state_of (makedirs fs p))"
proof (induction fs p rule: makedirs.induct)
  case (1 fs p)
  show ?case
  proof (cases "p \<noteq> [] \<and> \<not> path_exists fs (butlast p)")
    case True
    then have ih: "made (butlast p) fs (state_of (makedirs fs (butlast p)))"
      using 1 by simp
    show ?thesis
      using True ih made_mkdir[of p "state_of (makedirs fs (butlast p))"]
      by (subst makedirs.simps)
         (auto split: result.splits intro: made_trans made_butlast dest: mkdir_Raise)
  next
    case False
    then show ?thesis
      by (subst makedirs.simps) (auto simp: made_mkdir)
  qed
qed

lemma makedirs_Ok_isdir: "makedirs fs p = Ok fs' \<Longrightarrow> isdir fs' p"
  by (subst (asm) makedirs.simps)
     (auto simp: mkdir_Ok_iff isdir_def lookup_update split: if_splits result.splits)


lemma made_outside: "made p fs fs' \<Longrightarrow> \<not> prefix q p \<Longrightarrow> lookup fs' q = lookup fs q"
  unfolding made_def by metis



subsection \<open>kept\<close>

lemma kept_refl: "kept fs fs"
  by (simp add: kept_def)

lemma kept_trans: "kept a b \<Longrightarrow> kept b c \<Longrightarrow> kept a c"
  by (simp add: kept_def)

lemma keptD_isdir: "kept fs fs' \<Longrightarrow> isdir fs q \<Longrightarrow> isdir fs' q"
  by (simp add: kept_def)

lemma keptD_isfile: "kept fs fs' \<Longrightarrow> isfile fs q \<Longrightarrow> isfile fs' q"
  by (simp add: kept_def)

lemma made_kept: "made p fs fs' \<Longrightarrow> kept fs fs'"
  unfolding made_def kept_def isdir_def isfile_def
  by (metis option.distinct(1) option.simps(4))

lemma copy2_cases:
  "(\<exists>e. copy2 fs src dst = Raise e fs) \<or>
   (\<exists>c m. lookup fs src = Some (File c m) \<and>
      copy2 fs src dst = Ok (AList.update (if isdir fs dst then dst @ [basename src] else dst) (File c m) fs)
      \<and> \<not> isdir fs (if isdir fs dst then dst @ [basename src] else dst)
      \<and> isdir fs (butlast (if isdir fs dst then dst @ [basename src] else dst))
      \<and> src \<noteq> (if isdir fs dst then dst @ [basename src] else dst))"
  by (auto simp: copy2_def Let_def path_exists_def split: option.splits node.splits)

lemma kept_update_file:
  "\<not> isdir fs p \<Longrightarrow> kept fs (AList.update p (File c m) fs)"
  by (auto simp: kept_def isdir_def isfile_def lookup_update)

lemma kept_copy2: "kept fs (state_of (copy2 fs src dst))"
  using copy2_cases[of fs src dst] by (auto simp: kept_refl kept_update_file)

subsection \<open>confined\<close>

lemma confined_refl: "confined t fs fs"
  by (simp add: confined_def)

lemma confined_trans: "confined t a b \<Longrightarrow> confined t b c \<Longrightarrow> confined t a c"
  unfolding confined_def by (metis option.distinct(1))

lemma confined_child: "confined (t @ [c]) a b \<Longrightarrow> confined t a b"
proof -
  assume h: "confined (t @ [c]) a b"
  show ?thesis
    unfolding confined_def
  proof
    fix q
    show "lookup b q = lookup a q \<or> prefix t q \<or>
          (lookup a q = None \<and> lookup b q = Some Dir \<and> strict_prefix q t)"
      using h[unfolded confined_def, rule_format, of q]
      by (auto simp: strict_prefix_def dest: append_prefixD)
  qed
qed

lemma made_confined: "made p fs fs' \<Longrightarrow> strict_prefix p t \<or> p = t \<Longrightarrow> confined t fs fs'"
  unfolding made_def confined_def strict_prefix_def
  by (metis prefix_order.antisym prefix_order.trans prefix_order.refl)

lemma confined_update:
  "prefix t p \<Longrightarrow> confined t fs (AList.update p v fs)"
  by (auto simp: confined_def lookup_update)

lemma confined_copy2:
  "prefix t dst \<Longrightarrow> confined t fs (state_of (copy2 fs src dst))"
  using copy2_cases[of fs src dst]
  by (auto simp: confined_refl intro!: confined_update)

subsection \<open>The loop\<close>

lemma for_each_invariant:
  assumes "for_each cs body fs = Some r"
    and "I fs"
    and "\<And>c a r'. c \<in> set cs \<Longrightarrow> I a \<Longrightarrow> body c a = Some r' \<Longrightarrow> I (state_of r')"
  shows "I (state_of r)"
  using assms
proof (induction cs arbitrary: fs)
  case Nil
  then show ?case by auto
next
  case (Cons c cs)
  show ?case
  proof (cases "body c fs")
    case None
    then show ?thesis using Cons.prems(1) by simp
  next
    case (Some r')
    have I': "I (state_of r')" using Cons.prems(2) Cons.prems(3)[of c fs r'] Some by simp
    show ?thesis
    proof (cases r')
      case (Ok fs')
      show ?thesis
      proof (rule Cons.IH)
        show "for_each cs body fs' = Some r" using Cons.prems(1) Some Ok by simp
        show "I fs'" using I' Ok by simp
        fix d a r''
        assume "d \<in> set cs" "I a" "body d a = Some r''"
        then show "I (state_of r'')" using Cons.prems(3)[of d a r''] by simp
      qed
    next
      case (Raise e fs')
      then show ?thesis using Cons.prems(1) Some I' by auto
    qed
  qed
qed




subsection \<open>The copier keeps kinds and stays inside the target\<close>

lemma leaf_state_cases:
  assumes "\<not> isdir fs (sourceBase @ relative)" "\<not> gitignore relative"
    and "copyNotGitignoreTree (Suc n) sourceBase targetBase relative gitignore fs = Some r"
  shows "\<exists>fs1. made (dirname_target targetBase relative) fs fs1 \<and>
           (state_of r = fs1 \<or>
            relative \<noteq> [] \<and> r = copy2 fs1 (sourceBase @ relative) (targetBase @ relative))"
proof (cases "isdir fs (dirname_target targetBase relative)")
  case True
  then show ?thesis
    using assms copy_leaf[where gitignore = gitignore and relative = relative, OF assms(1,2), of n targetBase]
    by (intro exI[of _ fs]) (auto simp: made_refl split: if_splits)
next
  case False
  show ?thesis
    using assms copy_leaf[where gitignore = gitignore and relative = relative, OF assms(1,2), of n targetBase] False
      made_makedirs[of "dirname_target targetBase relative" fs]
    by (intro exI[of _ "state_of (makedirs fs (dirname_target targetBase relative))"])
       (auto split: if_splits result.splits)
qed

lemma kept_copy:
  "copyNotGitignoreTree n sourceBase targetBase relative gitignore fs = Some r \<Longrightarrow>
   kept fs (state_of r)"
proof (induction n arbitrary: relative fs r)
  case 0
  then show ?case by simp
next
  case (Suc n)
  show ?case
  proof (cases "isdir fs (sourceBase @ relative)")
    case True
    have "for_each (listdir fs (sourceBase @ relative))
       (\<lambda>child. copyNotGitignoreTree n sourceBase targetBase (relative @ [child]) gitignore) fs
       = Some r"
      using Suc.prems copy_dir[OF True] by simp
    then show ?thesis
      by (rule for_each_invariant[where I = "kept fs"])
         (auto simp: kept_refl dest: Suc.IH intro: kept_trans)
  next
    case False
    show ?thesis
    proof (cases "gitignore relative")
      case True
      then show ?thesis using Suc.prems copy_excluded[where gitignore = gitignore and relative = relative, OF False True] by (auto simp: kept_refl)
    next
      case ni: False
      obtain fs1 where "made (dirname_target targetBase relative) fs fs1"
        and "state_of r = fs1 \<or>
            relative \<noteq> [] \<and> r = copy2 fs1 (sourceBase @ relative) (targetBase @ relative)"
        using leaf_state_cases[OF False ni Suc.prems] by blast
      then show ?thesis
        using kept_copy2[of fs1 "sourceBase @ relative" "targetBase @ relative"]
          made_kept[of "dirname_target targetBase relative" fs fs1]
          kept_trans[of fs fs1 "state_of (copy2 fs1 (sourceBase @ relative) (targetBase @ relative))"]
        by auto
    qed
  qed
qed

lemma strict_prefix_butlast: "xs \<noteq> [] \<Longrightarrow> strict_prefix (butlast xs) xs"
  by (induction xs rule: rev_induct) (simp_all add: strict_prefix_def)

lemma dirname_target_strict:
  "relative \<noteq> [] \<Longrightarrow> strict_prefix (dirname_target targetBase relative) (targetBase @ relative)"
  using strict_prefix_butlast[of "targetBase @ relative"] by (simp add: dirname_target_def)

lemma dirname_target_Nil [simp]: "dirname_target targetBase [] = targetBase"
  by (simp add: dirname_target_def)

lemma confined_copy:
  "copyNotGitignoreTree n sourceBase targetBase relative gitignore fs = Some r \<Longrightarrow>
   confined (targetBase @ relative) fs (state_of r)"
proof (induction n arbitrary: relative fs r)
  case 0
  then show ?case by simp
next
  case (Suc n)
  show ?case
  proof (cases "isdir fs (sourceBase @ relative)")
    case True
    have "for_each (listdir fs (sourceBase @ relative))
       (\<lambda>child. copyNotGitignoreTree n sourceBase targetBase (relative @ [child]) gitignore) fs
       = Some r"
      using Suc.prems copy_dir[OF True] by simp
    then show ?thesis
    proof (rule for_each_invariant[where I = "confined (targetBase @ relative) fs"])
      show "confined (targetBase @ relative) fs fs" by (rule confined_refl)
    next
      fix c a r'
      assume a: "confined (targetBase @ relative) fs a"
        and b: "copyNotGitignoreTree n sourceBase targetBase (relative @ [c]) gitignore a = Some r'"
      have "confined ((targetBase @ relative) @ [c]) a (state_of r')"
        using Suc.IH[OF b] by simp
      then show "confined (targetBase @ relative) fs (state_of r')"
        using a confined_child confined_trans by blast
    qed
  next
    case False
    show ?thesis
    proof (cases "gitignore relative")
      case True
      then show ?thesis using Suc.prems copy_excluded[where gitignore = gitignore and relative = relative, OF False True] by (auto simp: confined_refl)
    next
      case ni: False
      obtain fs1 where m: "made (dirname_target targetBase relative) fs fs1"
        and c: "state_of r = fs1 \<or>
            relative \<noteq> [] \<and> r = copy2 fs1 (sourceBase @ relative) (targetBase @ relative)"
        using leaf_state_cases[OF False ni Suc.prems] by blast
      have c1: "confined (targetBase @ relative) fs fs1"
      proof (cases "relative = []")
        case True
        then show ?thesis using m made_confined by simp
      next
        case False
        then show ?thesis using m made_confined dirname_target_strict by blast
      qed
      from c show ?thesis
      proof
        assume "state_of r = fs1"
        then show ?thesis using c1 by simp
      next
        assume "relative \<noteq> [] \<and> r = copy2 fs1 (sourceBase @ relative) (targetBase @ relative)"
        then show ?thesis
          using c1 confined_copy2[of "targetBase @ relative" "targetBase @ relative" fs1]
            confined_trans by auto
      qed
    qed
  qed
qed

subsection \<open>Listings and reachability\<close>

lemma listdir_set: "set (listdir fs p) = {c. path_exists fs (p @ [c])}"
proof -
  have a: "set (listdir fs p) = last ` {q \<in> fst ` set fs. q \<noteq> [] \<and> butlast q = p}"
    by (auto simp: listdir_def)
  have b: "\<And>c. path_exists fs (p @ [c]) \<longleftrightarrow> p @ [c] \<in> fst ` set fs"
    by (simp add: path_exists_def lookup_def map_of_eq_None_iff)
  show ?thesis
  proof (intro set_eqI iffI)
    fix c
    assume "c \<in> set (listdir fs p)"
    then obtain q where q: "q \<in> fst ` set fs" "q \<noteq> []" "butlast q = p" "last q = c"
      using a by auto
    then have "q = p @ [c]" using append_butlast_last_id[of q] by simp
    then show "c \<in> {c. path_exists fs (p @ [c])}" using q(1) b by simp
  next
    fix c
    assume "c \<in> {c. path_exists fs (p @ [c])}"
    then have "p @ [c] \<in> {q \<in> fst ` set fs. q \<noteq> [] \<and> butlast q = p}" using b by simp
    then have "last (p @ [c]) \<in> set (listdir fs p)" unfolding a by (rule imageI)
    then show "c \<in> set (listdir fs p)" by simp
  qed
qed

lemma listdir_distinct: "distinct (listdir fs p)"
  by (simp add: listdir_def)

lemma reach_Nil [simp]: "reach fs p []"
  by (simp add: reach_def)

lemma reach_Cons: "reach fs p (c # x) \<longleftrightarrow> isdir fs p \<and> reach fs (p @ [c]) x"
proof
  assume h: "reach fs p (c # x)"
  have "isdir fs p" using h[unfolded reach_def, rule_format, of 0] by simp
  moreover have "reach fs (p @ [c]) x"
    unfolding reach_def
  proof (intro allI impI)
    fix k assume "k < length x"
    then show "isdir fs ((p @ [c]) @ take k x)"
      using h[unfolded reach_def, rule_format, of "Suc k"] by simp
  qed
  ultimately show "isdir fs p \<and> reach fs (p @ [c]) x" by simp
next
  assume h: "isdir fs p \<and> reach fs (p @ [c]) x"
  show "reach fs p (c # x)"
    unfolding reach_def
  proof (intro allI impI)
    fix k assume k: "k < length (c # x)"
    show "isdir fs (p @ take k (c # x))"
    proof (cases k)
      case 0
      then show ?thesis using h by simp
    next
      case (Suc j)
      then show ?thesis
        using h[THEN conjunct2, unfolded reach_def, rule_format, of j] k by simp
    qed
  qed
qed


lemma isdir_not_isfile: "isdir fs p \<Longrightarrow> \<not> isfile fs p"
  by (simp add: isdir_def isfile_def)

lemma deepest_bound: "map_of fs q \<noteq> None \<Longrightarrow> length q \<le> deepest fs"
proof (induction fs)
  case Nil
  then show ?case by simp
next
  case (Cons e fs)
  then show ?case
    by (cases e) (auto simp: deepest_def split: if_splits)
qed

lemma isdir_deepest: "isdir fs p \<Longrightarrow> length p \<le> deepest fs"
  using deepest_bound[of fs p] by (cases "p = []") (auto simp: isdir_def lookup_def)


subsection \<open>The predicate is asked of leaves only\<close>


subsection \<open>An excluded file is not written\<close>

lemma confined_sibling:
  assumes "confined (t @ [d]) a b" "c \<noteq> d"
  shows "lookup b (t @ c # x) = lookup a (t @ c # x)"
  using assms(1)[unfolded confined_def, rule_format, of "t @ c # x"] assms(2)
  by (auto simp: strict_prefix_def)


subsection \<open>Nothing to copy\<close>


subsection \<open>A source apart from the target\<close>

lemma confined_apart:
  assumes "confined t a b" "s \<parallel> t" "prefix s q"
  shows "lookup b q = lookup a q"
proof -
  have "\<not> prefix t q"
  proof
    assume "prefix t q"
    then have "prefix s t \<or> prefix t s" using assms(3) prefix_same_cases by blast
    then show False using assms(2) by (auto simp: parallel_def)
  qed
  moreover have "\<not> strict_prefix q t"
  proof
    assume "strict_prefix q t"
    then have "prefix s t" using assms(3) by (auto simp: strict_prefix_def)
    then show False using assms(2) by (auto simp: parallel_def)
  qed
  ultimately show ?thesis
    using assms(1)[unfolded confined_def, rule_format, of q] by auto
qed

lemma parallel_child: "s @ r \<parallel> t @ r \<Longrightarrow> s @ r @ [c] \<parallel> t @ r @ [c]"
  using parallel_append[of "s @ r" "t @ r" "[c]" "[c]"] by simp

subsection \<open>The recursion returns\<close>



subsection \<open>More fuel changes nothing\<close>




subsection \<open>A successful copy of one file\<close>

lemma copy2_Ok:
  assumes "copy2 fs src dst = Ok fs'"
  shows "\<exists>c m. lookup fs src = Some (File c m)
           \<and> fs' = AList.update (landing fs src dst) (File c m) fs
           \<and> \<not> isdir fs (landing fs src dst)
           \<and> isdir fs (butlast (landing fs src dst))
           \<and> src \<noteq> landing fs src dst"
  using copy2_cases[of fs src dst] assms by (auto simp: landing_def)

lemma landing_nonempty: "dst \<noteq> [] \<Longrightarrow> landing fs src dst \<noteq> []"
  by (simp add: landing_def)


lemma leaf_Ok:
  assumes "\<not> isdir fs (sourceBase @ relative)" "\<not> gitignore relative"
    and "copyNotGitignoreTree (Suc n) sourceBase targetBase relative gitignore fs = Some (Ok fs')"
  shows "relative \<noteq> [] \<and>
         (\<exists>fs1. made (butlast (targetBase @ relative)) fs fs1
            \<and> isdir fs1 (butlast (targetBase @ relative))
            \<and> copy2 fs1 (sourceBase @ relative) (targetBase @ relative) = Ok fs')"
proof -
  let ?d = "dirname_target targetBase relative"
  note step = copy_leaf[where gitignore = gitignore and relative = relative, OF assms(1,2), of n targetBase]
  show ?thesis
  proof (cases "isdir fs ?d")
    case True
    then have "relative \<noteq> [] \<and> copy2 fs (sourceBase @ relative) (targetBase @ relative) = Ok fs'"
      using assms(3) step by (auto split: if_splits)
    then show ?thesis
      using True made_refl by (auto simp: dirname_target_def)
  next
    case False
    then obtain fs1 where mk: "makedirs fs ?d = Ok fs1"
      using assms(3) step by (auto split: result.splits)
    then have r: "relative \<noteq> [] \<and> copy2 fs1 (sourceBase @ relative) (targetBase @ relative) = Ok fs'"
      using assms(3) step False by (auto split: if_splits)
    have "made ?d fs fs1" using made_makedirs[of ?d fs] mk by simp
    moreover have "isdir fs1 ?d" using mk by (rule makedirs_Ok_isdir)
    ultimately show ?thesis using r by (auto simp: dirname_target_def)
  qed
qed

subsection \<open>The loop reaches every child\<close>

lemma for_each_invariant_Ok:
  assumes "for_each cs body fs = Some (Ok fs')"
    and "I fs"
    and "\<And>c a b. c \<in> set cs \<Longrightarrow> I a \<Longrightarrow> body c a = Some (Ok b) \<Longrightarrow> I b"
  shows "I fs'"
  using assms
proof (induction cs arbitrary: fs)
  case Nil
  then show ?case by simp
next
  case (Cons c cs)
  obtain b where b: "body c fs = Some (Ok b)" and rest: "for_each cs body b = Some (Ok fs')"
    using Cons.prems(1) by (auto split: option.splits result.splits)
  have Ib: "I b" using Cons.prems(3)[of c fs b] Cons.prems(2) b by simp
  show ?case
  proof (rule Cons.IH[OF rest Ib])
    fix d a b'
    assume "d \<in> set cs" "I a" "body d a = Some (Ok b')"
    then show "I b'" using Cons.prems(3)[of d a b'] by simp
  qed
qed

lemma for_each_visits:
  assumes "for_each cs body fs = Some (Ok fs')"
    and "c \<in> set cs" and "distinct cs"
    and "I fs"
    and "\<And>d a b. d \<noteq> c \<Longrightarrow> I a \<Longrightarrow> body d a = Some (Ok b) \<Longrightarrow> I b"
    and "\<And>a b. I a \<Longrightarrow> body c a = Some (Ok b) \<Longrightarrow> J b"
    and "\<And>d a b. d \<noteq> c \<Longrightarrow> J a \<Longrightarrow> body d a = Some (Ok b) \<Longrightarrow> J b"
  shows "J fs'"
  using assms(1-4)
proof (induction cs arbitrary: fs)
  case Nil
  then show ?case by simp
next
  case (Cons d cs)
  obtain b where b: "body d fs = Some (Ok b)" and rest: "for_each cs body b = Some (Ok fs')"
    using Cons.prems(1) by (auto split: option.splits result.splits)
  show ?case
  proof (cases "d = c")
    case True
    have Jb: "J b" using assms(6)[of fs b] Cons.prems(4) b True by simp
    have notin: "c \<notin> set cs" using Cons.prems(3) True by simp
    show ?thesis
      using rest Jb
    proof (rule for_each_invariant_Ok[where I = J])
      fix e a b'
      assume "e \<in> set cs" "J a" "body e a = Some (Ok b')"
      then show "J b'" using assms(7)[of e a b'] notin by auto
    qed
  next
    case False
    have Ib: "I b" using assms(5)[of d fs b] False Cons.prems(4) b by simp
    show ?thesis
      using Cons.IH[OF rest _ _ Ib] Cons.prems(2,3) False by auto
  qed
qed


lemma not_prefix_butlast: "xs \<noteq> [] \<Longrightarrow> \<not> prefix xs (butlast xs)"
  using prefix_length_le[of xs "butlast xs"] by (cases xs) auto

lemma prefix_butlast_prefix: "prefix p (butlast q) \<Longrightarrow> prefix p q"
  using prefixeq_butlast[of q] prefix_order.trans by blast

lemma parallel_not_eq: "s \<parallel> t \<Longrightarrow> s \<noteq> t"
  by (auto simp: parallel_def)

lemma reach_child_exists:
  assumes "reach fs p (c # x)" "path_exists fs (p @ c # x)"
  shows "path_exists fs (p @ [c])"
proof (cases x)
  case Nil
  then show ?thesis using assms(2) by simp
next
  case (Cons d y)
  then have "isdir fs (p @ [c])" using assms(1) by (simp add: reach_Cons)
  then show ?thesis by (simp add: isdir_def path_exists_def)
qed

lemma lookup_eq_isdir: "lookup a q = lookup b q \<Longrightarrow> isdir a q = isdir b q"
  by (simp add: isdir_def)

lemma lookup_eq_landing: "lookup a dst = lookup b dst \<Longrightarrow> landing a src dst = landing b src dst"
  by (simp add: landing_def isdir_def)

lemma reach_same:
  assumes "\<forall>q. prefix p q \<longrightarrow> lookup a q = lookup b q" "reach b p x"
  shows "reach a p x"
  using assms by (auto simp: reach_def isdir_def)

lemma copy_post_leaf:
  assumes nd: "\<not> isdir fs (sourceBase @ relative)" and ni: "\<not> g relative"
    and run: "copyNotGitignoreTree (Suc n) sourceBase targetBase relative g fs = Some (Ok fs')"
    and par: "sourceBase @ relative \<parallel> targetBase @ relative"
    and isf: "lookup fs (sourceBase @ relative) = Some (File c m)"
  shows "relative \<noteq> []
       \<and> lookup fs' (landing fs (sourceBase @ relative) (targetBase @ relative)) = Some (File c m)
       \<and> isdir fs' (butlast (targetBase @ relative))"
proof -
  let ?s = "sourceBase @ relative" and ?t = "targetBase @ relative"
  obtain fs1 where ne: "relative \<noteq> []"
    and mk: "made (butlast ?t) fs fs1" and d1: "isdir fs1 (butlast ?t)"
    and cp: "copy2 fs1 ?s ?t = Ok fs'"
    using leaf_Ok[OF nd ni run] by blast
  have tne: "?t \<noteq> []" using ne by simp
  have "\<not> prefix ?s (butlast ?t)"
    using par prefix_butlast_prefix[of ?s ?t] by (auto simp: parallel_def)
  then have s1: "lookup fs1 ?s = lookup fs ?s" using mk made_outside by blast
  have t1: "lookup fs1 ?t = lookup fs ?t"
    using mk made_outside not_prefix_butlast[OF tne] by blast
  have L: "landing fs1 ?s ?t = landing fs ?s ?t" using t1 by (rule lookup_eq_landing)
  obtain c' m' where src: "lookup fs1 ?s = Some (File c' m')"
    and upd: "fs' = AList.update (landing fs1 ?s ?t) (File c' m') fs1"
    using copy2_Ok[OF cp] by blast
  have cm: "c' = c \<and> m' = m" using src s1 isf by simp
  have "lookup fs' (landing fs ?s ?t) = Some (File c m)"
    using upd L cm landing_nonempty[OF tne, of fs ?s] by (simp add: lookup_update)
  moreover have "isdir fs' (butlast ?t)"
    using kept_copy2[of fs1 ?s ?t] cp d1 by (simp add: kept_def)
  ultimately show ?thesis using ne by simp
qed

lemma copy_post:
  assumes "copyNotGitignoreTree n sourceBase targetBase relative g fs = Some (Ok fs')"
    and "sourceBase @ relative \<parallel> targetBase @ relative"
    and "reach fs (sourceBase @ relative) x"
    and "lookup fs (sourceBase @ relative @ x) = Some (File c m)"
    and "\<not> g (relative @ x)"
  shows "relative @ x \<noteq> []
       \<and> lookup fs' (landing fs (sourceBase @ relative @ x) (targetBase @ relative @ x))
           = Some (File c m)
       \<and> isdir fs' (butlast (targetBase @ relative @ x))"
  using assms
proof (induction n arbitrary: relative x fs fs')
  case 0
  then show ?case by simp
next
  case (Suc n)
  let ?s = "sourceBase @ relative" and ?t = "targetBase @ relative"
  show ?case
  proof (cases "isdir fs ?s")
    case False
    have "x = []"
    proof (cases x)
      case Nil
      then show ?thesis .
    next
      case (Cons d y)
      then show ?thesis using Suc.prems(3) False by (simp add: reach_Cons)
    qed
    then have x0: "x = []" .
    have ni: "\<not> g relative" using Suc.prems(5) x0 by simp
    have fl: "lookup fs (sourceBase @ relative) = Some (File c m)" using Suc.prems(4) x0 by simp
    show ?thesis
      using copy_post_leaf[where g = g and relative = relative, OF False ni Suc.prems(1,2) fl] x0
      by simp
  next
    case True
    then obtain d x' where x: "x = d # x'"
      using Suc.prems(4) by (cases x) (auto simp: isdir_def)
    let ?rd = "relative @ [d]"
    let ?L = "landing fs (sourceBase @ relative @ x) (targetBase @ relative @ x)"
    have pd: "sourceBase @ ?rd \<parallel> targetBase @ ?rd"
      using parallel_child[OF Suc.prems(2), of d] by simp
    have Lform: "\<exists>y. ?L = ?t @ d # y"
      by (auto simp: landing_def x)
    have din: "d \<in> set (listdir fs ?s)"
      using reach_child_exists[of fs ?s d x'] Suc.prems(3,4) x
      by (simp add: listdir_set path_exists_def)
    have fe: "for_each (listdir fs ?s)
       (\<lambda>child. copyNotGitignoreTree n sourceBase targetBase (relative @ [child]) g) fs
       = Some (Ok fs')"
      using Suc.prems(1) copy_dir[where gitignore = g and relative = relative, OF True] by simp
    let ?I = "\<lambda>a. kept fs a \<and> (\<forall>q. prefix ?s q \<longrightarrow> lookup a q = lookup fs q)
                 \<and> (\<forall>y. lookup a (?t @ d # y) = lookup fs (?t @ d # y))"
    let ?J = "\<lambda>b. kept fs b \<and> lookup b ?L = Some (File c m)
                 \<and> isdir b (butlast (targetBase @ relative @ x))"
    have "?J fs'"
      using fe din listdir_distinct
    proof (rule for_each_visits[where I = ?I and J = ?J])
      show "?I fs" by (simp add: kept_refl)
    next
      fix e a b
      assume ne: "e \<noteq> d" and I: "?I a"
        and run: "copyNotGitignoreTree n sourceBase targetBase (relative @ [e]) g a = Some (Ok b)"
      have k: "kept a b" using kept_copy[OF run] by simp
      have c1: "confined (?t @ [e]) a b" using confined_copy[OF run] by simp
      then have c2: "confined ?t a b" by (rule confined_child)
      have i1: "kept fs b" using I k kept_trans[of fs a b] by simp
      have i2: "\<forall>q. prefix ?s q \<longrightarrow> lookup b q = lookup fs q"
      proof (intro allI impI)
        fix q assume q: "prefix ?s q"
        have "lookup b q = lookup a q" using c2 Suc.prems(2) q by (rule confined_apart)
        moreover have "lookup a q = lookup fs q" using I q by simp
        ultimately show "lookup b q = lookup fs q" by simp
      qed
      have i3: "\<forall>y. lookup b (?t @ d # y) = lookup fs (?t @ d # y)"
      proof
        fix y
        have "d \<noteq> e" using ne by simp
        then have "lookup b (?t @ d # y) = lookup a (?t @ d # y)"
          using confined_sibling[of ?t e a b d y] c1 by simp
        moreover have "lookup a (?t @ d # y) = lookup fs (?t @ d # y)" using I by simp
        ultimately show "lookup b (?t @ d # y) = lookup fs (?t @ d # y)" by simp
      qed
      show "?I b" using i1 i2 i3 by blast
    next
      fix a b
      assume I: "?I a"
        and run: "copyNotGitignoreTree n sourceBase targetBase (relative @ [d]) g a = Some (Ok b)"
      have same: "\<forall>q. prefix (sourceBase @ ?rd) q \<longrightarrow> lookup a q = lookup fs q"
        using I append_prefixD[of ?s "[d]"] by simp
      have "reach fs (sourceBase @ ?rd) x'"
        using Suc.prems(3) x by (simp add: reach_Cons)
      then have r1: "reach a (sourceBase @ ?rd) x'" using same reach_same by blast
      have r2: "lookup a (sourceBase @ ?rd @ x') = Some (File c m)"
        using same Suc.prems(4) x by simp
      have r3: "\<not> g (?rd @ x')" using Suc.prems(5) x by simp
      have ih: "lookup b (landing a (sourceBase @ ?rd @ x') (targetBase @ ?rd @ x')) = Some (File c m)
                \<and> isdir b (butlast (targetBase @ ?rd @ x'))"
        using Suc.IH[where relative = ?rd and x = x' and fs = a and fs' = b, OF run pd r1 r2 r3]
        by simp
      have "lookup a (targetBase @ ?rd @ x') = lookup fs (targetBase @ ?rd @ x')"
        using I by simp
      then have "landing a (sourceBase @ ?rd @ x') (targetBase @ ?rd @ x')
               = landing fs (sourceBase @ ?rd @ x') (targetBase @ ?rd @ x')"
        by (rule lookup_eq_landing)
      then have "lookup b ?L = Some (File c m) \<and> isdir b (butlast (targetBase @ relative @ x))"
        using ih x by simp
      moreover have "kept fs b" using I kept_copy[OF run] kept_trans[of fs a b] by simp
      ultimately show "?J b" by simp
    next
      fix e a b
      assume ne: "e \<noteq> d" and J: "?J a"
        and run: "copyNotGitignoreTree n sourceBase targetBase (relative @ [e]) g a = Some (Ok b)"
      have k: "kept a b" using kept_copy[OF run] by simp
      have c1: "confined (?t @ [e]) a b" using confined_copy[OF run] by simp
      obtain y where y: "?L = ?t @ d # y" using Lform by blast
      have "lookup b ?L = lookup a ?L"
        using confined_sibling[OF c1, of d y] ne y by simp
      moreover have "kept fs b" using J k kept_trans by blast
      moreover have "isdir b (butlast (targetBase @ relative @ x))"
        using J k keptD_isdir by blast
      ultimately show "?J b" using J by simp
    qed
    then show ?thesis using x by simp
  qed
qed

subsection \<open>Well-formed file systems\<close>

lemma well_formed_update_dir:
  assumes "well_formed fs" "p \<noteq> []" "isdir fs (butlast p)"
  shows "well_formed (AList.update p Dir fs)"
  unfolding well_formed_def
proof (intro allI impI)
  fix q
  assume q: "q \<noteq> [] \<and> path_exists (AList.update p Dir fs) q"
  show "isdir (AList.update p Dir fs) (butlast q)"
  proof (cases "q = p")
    case True
    then show ?thesis using assms(3) by (auto simp: isdir_def lookup_update)
  next
    case False
    then have "path_exists fs q"
      using q by (auto simp: path_exists_def lookup_update split: if_splits)
    then have "isdir fs (butlast q)" using assms(1) q by (simp add: well_formed_def)
    then show ?thesis by (auto simp: isdir_def lookup_update)
  qed
qed

lemma well_formed_update_file:
  assumes "well_formed fs" "p \<noteq> []" "isdir fs (butlast p)" "\<not> isdir fs p"
  shows "well_formed (AList.update p (File c m) fs)"
  unfolding well_formed_def
proof (intro allI impI)
  fix q
  assume q: "q \<noteq> [] \<and> path_exists (AList.update p (File c m) fs) q"
  show "isdir (AList.update p (File c m) fs) (butlast q)"
  proof (cases "q = p")
    case True
    have "butlast p \<noteq> p" using assms(2) by (cases p rule: rev_cases) auto
    then show ?thesis using True assms(3) by (auto simp: isdir_def lookup_update)
  next
    case False
    then have "path_exists fs q"
      using q by (auto simp: path_exists_def lookup_update split: if_splits)
    then have d: "isdir fs (butlast q)" using assms(1) q by (simp add: well_formed_def)
    then have "butlast q \<noteq> p" using assms(4) by auto
    then show ?thesis using d by (auto simp: isdir_def lookup_update)
  qed
qed

lemma well_formed_mkdir: "well_formed fs \<Longrightarrow> well_formed (state_of (mkdir fs p))"
  by (auto simp: mkdir_def well_formed_update_dir)

lemma well_formed_makedirs: "well_formed fs \<Longrightarrow> well_formed (state_of (makedirs fs p))"
proof (induction fs p rule: makedirs.induct)
  case (1 fs p)
  show ?case
  proof (cases "p \<noteq> [] \<and> \<not> path_exists fs (butlast p)")
    case True
    then have ih: "well_formed (state_of (makedirs fs (butlast p)))"
      using 1 by simp
    show ?thesis
      using True ih well_formed_mkdir[of "state_of (makedirs fs (butlast p))" p]
      by (subst makedirs.simps) (auto split: result.splits)
  next
    case False
    then show ?thesis
      using 1(2) by (subst makedirs.simps) (auto simp: well_formed_mkdir)
  qed
qed

lemma well_formed_copy2: "well_formed fs \<Longrightarrow> well_formed (state_of (copy2 fs src dst))"
proof -
  assume wf: "well_formed fs"
  let ?l = "if isdir fs dst then dst @ [basename src] else dst"
  from copy2_cases[of fs src dst] show ?thesis
  proof
    assume "\<exists>e. copy2 fs src dst = Raise e fs"
    then show ?thesis using wf by auto
  next
    assume "\<exists>c m. lookup fs src = Some (File c m) \<and>
      copy2 fs src dst = Ok (AList.update ?l (File c m) fs) \<and> \<not> isdir fs ?l
      \<and> isdir fs (butlast ?l) \<and> src \<noteq> ?l"
    then obtain c m where a: "copy2 fs src dst = Ok (AList.update ?l (File c m) fs)"
      "\<not> isdir fs ?l" "isdir fs (butlast ?l)" by blast
    have ne: "?l \<noteq> []" using a(2) by auto
    have "well_formed (AList.update ?l (File c m) fs)"
      using wf ne a(3) a(2) by (rule well_formed_update_file)
    then show ?thesis using a(1) by simp
  qed
qed

lemma well_formed_copy:
  "copyNotGitignoreTree n sourceBase targetBase relative g fs = Some r \<Longrightarrow> well_formed fs \<Longrightarrow>
   well_formed (state_of r)"
proof (induction n arbitrary: relative fs r)
  case 0
  then show ?case by simp
next
  case (Suc n)
  show ?case
  proof (cases "isdir fs (sourceBase @ relative)")
    case True
    have "for_each (listdir fs (sourceBase @ relative))
       (\<lambda>child. copyNotGitignoreTree n sourceBase targetBase (relative @ [child]) g) fs
       = Some r"
      using Suc.prems(1) copy_dir[where gitignore = g and relative = relative, OF True] by simp
    then show ?thesis
    proof (rule for_each_invariant[where I = well_formed])
      show "well_formed fs" by (rule Suc.prems(2))
    next
      fix c a r'
      assume "well_formed a"
        "copyNotGitignoreTree n sourceBase targetBase (relative @ [c]) g a = Some r'"
      then show "well_formed (state_of r')" using Suc.IH by blast
    qed
  next
    case False
    show ?thesis
    proof (cases "g relative")
      case True
      then show ?thesis
        using Suc.prems copy_excluded[where gitignore = g and relative = relative, OF False True]
        by auto
    next
      case ni: False
      let ?d = "dirname_target targetBase relative"
      let ?c = "\<lambda>fs1. if relative = [] then
               Some (Raise (if path_exists fs1 (sourceBase @ relative) then NotADirectoryError
                            else FileNotFoundError) fs1)
             else Some (copy2 fs1 (sourceBase @ relative) (targetBase @ relative))"
      note step = copy_leaf[where gitignore = g and relative = relative, OF False ni, of n targetBase]
      have tail: "\<And>fs1. well_formed fs1 \<Longrightarrow> ?c fs1 = Some r \<Longrightarrow> well_formed (state_of r)"
        using well_formed_copy2 by (auto split: if_splits)
      show ?thesis
      proof (cases "isdir fs ?d")
        case True
        then have "?c fs = Some r" using Suc.prems(1) step by simp
        then show ?thesis using tail[OF Suc.prems(2)] by blast
      next
        case nd: False
        have w1: "well_formed (state_of (makedirs fs ?d))"
          using Suc.prems(2) by (rule well_formed_makedirs)
        show ?thesis
        proof (cases "makedirs fs ?d")
          case (Ok fs1)
          then have "?c fs1 = Some r" using Suc.prems(1) step nd by simp
          moreover have "well_formed fs1" using w1 Ok by simp
          ultimately show ?thesis using tail by blast
        next
          case (Raise e fs1)
          then have "r = Raise e fs1" using Suc.prems(1) step nd by simp
          then show ?thesis using w1 Raise by simp
        qed
      qed
    qed
  qed
qed

lemma well_formed_ancestors:
  "well_formed fs \<Longrightarrow> path_exists fs q \<Longrightarrow> strict_prefix p q \<Longrightarrow> isdir fs p"
proof (induction q rule: rev_induct)
  case Nil
  then show ?case by simp
next
  case (snoc y ys)
  have d: "isdir fs ys" using snoc.prems(1,2) by (auto simp: well_formed_def)
  have "prefix p ys" using snoc.prems(3) by (auto simp: strict_prefix_def)
  then show ?case
  proof (cases "p = ys")
    case True
    then show ?thesis using d by simp
  next
    case False
    then have "strict_prefix p ys" using \<open>prefix p ys\<close> by (simp add: strict_prefix_def)
    moreover have "path_exists fs ys" using d by (simp add: isdir_def path_exists_def)
    ultimately show ?thesis using snoc.IH snoc.prems(1) by blast
  qed
qed

lemma well_formed_to_parent:
  "well_formed fs \<Longrightarrow> isdir fs (butlast q) \<Longrightarrow> strict_prefix p q \<Longrightarrow> isdir fs p"
proof -
  assume wf: "well_formed fs" and d: "isdir fs (butlast q)" and sp: "strict_prefix p q"
  have "q \<noteq> []" using sp by auto
  then obtain ys y where "q = ys @ [y]" by (metis rev_exhaust)
  then have "prefix p (butlast q)"
    using sp by (auto simp: strict_prefix_def)
  then show "isdir fs p"
  proof (cases "p = butlast q")
    case True
    then show ?thesis using d by simp
  next
    case False
    then have "strict_prefix p (butlast q)" using \<open>prefix p (butlast q)\<close> by (simp add: strict_prefix_def)
    moreover have "path_exists fs (butlast q)" using d by (simp add: isdir_def path_exists_def)
    ultimately show ?thesis using wf well_formed_ancestors by blast
  qed
qed

subsection \<open>Copying a file onto its copy\<close>







subsection \<open>What a completed run has written\<close>

lemma isfile_iff: "isfile fs p \<longleftrightarrow> (\<exists>c m. lookup fs p = Some (File c m))"
  by (auto simp: isfile_def split: option.splits node.splits)

lemma reach_strict_prefix:
  assumes "reach fs p y" "strict_prefix x y"
  shows "isdir fs (p @ x)"
proof -
  obtain z where z: "y = x @ z" "z \<noteq> []"
    using assms(2) by (auto simp: strict_prefix_def prefix_def)
  then have "length x < length y" by simp
  then have "isdir fs (p @ take (length x) y)" using assms(1) by (simp add: reach_def)
  then show ?thesis using z by simp
qed

lemma kept_exists: "kept fs a \<Longrightarrow> lookup a q = None \<Longrightarrow> lookup fs q = None"
proof (rule ccontr)
  assume k: "kept fs a" and n: "lookup a q = None" and "lookup fs q \<noteq> None"
  then obtain v where v: "lookup fs q = Some v" by auto
  show False
  proof (cases v)
    case (File c m)
    then have "isfile fs q" using v by (simp add: isfile_iff)
    then have "isfile a q" using k keptD_isfile by blast
    then show False using n by (simp add: isfile_iff)
  next
    case Dir
    then have "isdir fs q" using v by (simp add: isdir_def)
    then have "isdir a q" using k keptD_isdir by blast
    then show False using n by (simp add: isdir_def)
  qed
qed

lemma copied_child:
  assumes "copied sourceBase g a (relative @ [c]) x"
    and "isdir fs (sourceBase @ relative)"
    and "\<forall>q. prefix (sourceBase @ relative) q \<longrightarrow> lookup a q = lookup fs q"
  shows "copied sourceBase g fs relative (c # x)"
proof -
  let ?s = "sourceBase @ relative"
  have same: "\<forall>q. prefix (?s @ [c]) q \<longrightarrow> lookup fs q = lookup a q"
    using assms(3) append_prefixD[of ?s "[c]"] by simp
  have "reach a (?s @ [c]) x" using assms(1) by (simp add: copied_def)
  then have "reach fs (?s @ [c]) x" using same reach_same by blast
  then have r: "reach fs ?s (c # x)" using assms(2) by (simp add: reach_Cons)
  have "lookup fs (?s @ c # x) = lookup a (?s @ c # x)" using assms(3) by simp
  then have f: "isfile fs (?s @ c # x)"
    using assms(1) by (simp add: copied_def isfile_def)
  show ?thesis using r f assms(1) by (simp add: copied_def)
qed

lemma written_target_kind:
  assumes k: "kept fs a"
    and w: "\<forall>q. lookup a q \<noteq> lookup fs q \<longrightarrow> written sourceBase targetBase g fs relative q (lookup a q)"
    and c: "copied sourceBase g fs relative x"
  shows "isdir a (targetBase @ relative @ x) = isdir fs (targetBase @ relative @ x)"
proof (cases "lookup a (targetBase @ relative @ x) = lookup fs (targetBase @ relative @ x)")
  case True
  then show ?thesis by (rule lookup_eq_isdir)
next
  case False
  let ?T = "targetBase @ relative @ x"
  have W: "written sourceBase targetBase g fs relative ?T (lookup a ?T)"
    using w False by blast
  have nd: "\<not> isdir fs ?T"
  proof
    assume d: "isdir fs ?T"
    then have "isdir a ?T" using k keptD_isdir by blast
    then show False using d False by (simp add: isdir_def)
  qed
  have "\<not> isdir a ?T"
  proof
    assume d: "isdir a ?T"
    from W[unfolded written_def] show False
    proof
      assume "\<exists>y. copied sourceBase g fs relative y
           \<and> ?T = landing fs (sourceBase @ relative @ y) (targetBase @ relative @ y)
           \<and> lookup a ?T = lookup fs (sourceBase @ relative @ y)"
      then obtain y where "copied sourceBase g fs relative y"
        "lookup a ?T = lookup fs (sourceBase @ relative @ y)" by blast
      then have "isfile a ?T" by (simp add: copied_def isfile_def)
      then show False using d isdir_not_isfile by blast
    next
      assume "lookup fs ?T = None \<and> lookup a ?T = Some Dir
          \<and> (\<exists>y. copied sourceBase g fs relative y
                \<and> strict_prefix ?T (targetBase @ relative @ y))"
      then obtain y where y: "copied sourceBase g fs relative y"
        "strict_prefix ?T (targetBase @ relative @ y)" by blast
      have "strict_prefix x y" using y(2) by (simp add: strict_prefix_def)
      moreover have "reach fs (sourceBase @ relative) y" using y(1) by (simp add: copied_def)
      ultimately have "isdir fs ((sourceBase @ relative) @ x)"
        using reach_strict_prefix[of fs "sourceBase @ relative" y x] by simp
      then show False using c isdir_not_isfile by (simp add: copied_def)
    qed
  qed
  then show ?thesis using nd by simp
qed

lemma copy_written_leaf:
  assumes nd: "\<not> isdir fs (sourceBase @ relative)" and ni: "\<not> g relative"
    and run: "copyNotGitignoreTree (Suc n) sourceBase targetBase relative g fs = Some (Ok fs')"
    and par: "sourceBase @ relative \<parallel> targetBase @ relative"
    and ch: "lookup fs' q \<noteq> lookup fs q"
  shows "written sourceBase targetBase g fs relative q (lookup fs' q)"
proof -
  let ?s = "sourceBase @ relative" and ?t = "targetBase @ relative"
  obtain fs1 where ne: "relative \<noteq> []"
    and mk: "made (butlast ?t) fs fs1"
    and cp: "copy2 fs1 ?s ?t = Ok fs'"
    using leaf_Ok[where gitignore = g and relative = relative, OF nd ni run] by blast
  have tne: "?t \<noteq> []" using ne by simp
  have "\<not> prefix ?s (butlast ?t)"
    using par prefix_butlast_prefix[of ?s ?t] by (auto simp: parallel_def)
  then have s1: "lookup fs1 ?s = lookup fs ?s" using mk made_outside by blast
  have t1: "lookup fs1 ?t = lookup fs ?t"
    using mk made_outside not_prefix_butlast[OF tne] by blast
  have L: "landing fs1 ?s ?t = landing fs ?s ?t" using t1 by (rule lookup_eq_landing)
  obtain c m where src: "lookup fs1 ?s = Some (File c m)"
    and upd: "fs' = AList.update (landing fs1 ?s ?t) (File c m) fs1"
    using copy2_Ok[OF cp] by blast
  have fsrc: "lookup fs ?s = Some (File c m)" using src s1 by simp
  have cop: "copied sourceBase g fs relative []"
    using fsrc ni by (simp add: copied_def isfile_iff)
  show ?thesis
  proof (cases "q = landing fs ?s ?t")
    case True
    have "lookup fs' q = Some (File c m)"
      using upd L True landing_nonempty[OF tne, of fs ?s] by (simp add: lookup_update)
    then have "lookup fs' q = lookup fs (sourceBase @ relative @ [])" using fsrc by simp
    moreover have "q = landing fs (sourceBase @ relative @ []) (targetBase @ relative @ [])"
      using True by simp
    ultimately show ?thesis unfolding written_def using cop by blast
  next
    case False
    then have e: "lookup fs' q = lookup fs1 q" using upd L by (simp add: lookup_update)
    then have "lookup fs1 q \<noteq> lookup fs q" using ch by simp
    then have m: "lookup fs q = None \<and> lookup fs1 q = Some Dir \<and> prefix q (butlast ?t)"
      using mk[unfolded made_def, rule_format, of q] by simp
    have "strict_prefix q ?t"
      using m strict_prefix_butlast[OF tne] by (auto simp: strict_prefix_def)
    then have "strict_prefix q (targetBase @ relative @ [])" by simp
    then show ?thesis unfolding written_def using cop m e by metis
  qed
qed

lemma copy_written:
  assumes "copyNotGitignoreTree n sourceBase targetBase relative g fs = Some (Ok fs')"
    and "sourceBase @ relative \<parallel> targetBase @ relative"
  shows "\<forall>q. lookup fs' q \<noteq> lookup fs q \<longrightarrow>
            written sourceBase targetBase g fs relative q (lookup fs' q)"
  using assms
proof (induction n arbitrary: relative fs fs')
  case 0
  then show ?case by simp
next
  case (Suc n)
  let ?s = "sourceBase @ relative" and ?t = "targetBase @ relative"
  show ?case
  proof (cases "isdir fs ?s")
    case False
    show ?thesis
    proof (cases "g relative")
      case True
      then show ?thesis
        using Suc.prems(1) copy_excluded[where gitignore = g and relative = relative, OF False]
        by simp
    next
      case ni: False
      show ?thesis
        using copy_written_leaf[where g = g and relative = relative, OF False ni Suc.prems(1,2)]
        by blast
    qed
  next
    case True
    have fe: "for_each (listdir fs ?s)
       (\<lambda>child. copyNotGitignoreTree n sourceBase targetBase (relative @ [child]) g) fs
       = Some (Ok fs')"
      using Suc.prems(1) copy_dir[where gitignore = g and relative = relative, OF True] by simp
    let ?W = "\<lambda>a. \<forall>q. lookup a q \<noteq> lookup fs q \<longrightarrow>
                written sourceBase targetBase g fs relative q (lookup a q)"
    let ?I = "\<lambda>a. kept fs a \<and> (\<forall>q. prefix ?s q \<longrightarrow> lookup a q = lookup fs q) \<and> ?W a"
    have "?I fs'"
      using fe
    proof (rule for_each_invariant_Ok[where I = ?I])
      show "?I fs" by (simp add: kept_refl)
    next
      fix c a b
      assume I: "?I a"
        and run: "copyNotGitignoreTree n sourceBase targetBase (relative @ [c]) g a = Some (Ok b)"
      have ka: "kept fs a" using I by simp
      have sa: "\<forall>q. prefix ?s q \<longrightarrow> lookup a q = lookup fs q" using I by simp
      have wa: "?W a" using I by simp
      have pc: "sourceBase @ (relative @ [c]) \<parallel> targetBase @ (relative @ [c])"
        using parallel_child[OF Suc.prems(2), of c] by simp
      have ih: "\<forall>q. lookup b q \<noteq> lookup a q \<longrightarrow>
            written sourceBase targetBase g a (relative @ [c]) q (lookup b q)"
        using Suc.IH[where relative = "relative @ [c]" and fs = a and fs' = b, OF run pc] .
      have i1: "kept fs b" using ka kept_copy[OF run] kept_trans[of fs a b] by simp
      have "confined (?t @ [c]) a b" using confined_copy[OF run] by simp
      then have c2: "confined ?t a b" by (rule confined_child)
      have i2: "\<forall>q. prefix ?s q \<longrightarrow> lookup b q = lookup fs q"
      proof (intro allI impI)
        fix q assume q: "prefix ?s q"
        have "lookup b q = lookup a q" using c2 Suc.prems(2) q by (rule confined_apart)
        then show "lookup b q = lookup fs q" using sa q by simp
      qed
      have i3: "?W b"
      proof (intro allI impI)
        fix q
        assume ch: "lookup b q \<noteq> lookup fs q"
        show "written sourceBase targetBase g fs relative q (lookup b q)"
        proof (cases "lookup b q = lookup a q")
          case True
          then show ?thesis using wa ch by simp
        next
          case False
          then have W: "written sourceBase targetBase g a (relative @ [c]) q (lookup b q)"
            using ih by blast
          from W[unfolded written_def] show ?thesis
          proof
            assume "\<exists>x. copied sourceBase g a (relative @ [c]) x
               \<and> q = landing a (sourceBase @ (relative @ [c]) @ x) (targetBase @ (relative @ [c]) @ x)
               \<and> lookup b q = lookup a (sourceBase @ (relative @ [c]) @ x)"
            then obtain x where x: "copied sourceBase g a (relative @ [c]) x"
              "q = landing a (sourceBase @ (relative @ [c]) @ x) (targetBase @ (relative @ [c]) @ x)"
              "lookup b q = lookup a (sourceBase @ (relative @ [c]) @ x)" by blast
            have cx: "copied sourceBase g fs relative (c # x)"
              using x(1) True sa by (rule copied_child)
            have "isdir a (targetBase @ relative @ c # x) = isdir fs (targetBase @ relative @ c # x)"
              using ka wa cx by (rule written_target_kind)
            then have l: "q = landing fs (sourceBase @ relative @ c # x) (targetBase @ relative @ c # x)"
              using x(2) by (simp add: landing_def)
            have "lookup a (sourceBase @ relative @ c # x) = lookup fs (sourceBase @ relative @ c # x)"
              using sa by simp
            then have v: "lookup b q = lookup fs (sourceBase @ relative @ c # x)"
              using x(3) by simp
            show ?thesis unfolding written_def using cx l v by blast
          next
            assume "lookup a q = None \<and> lookup b q = Some Dir
               \<and> (\<exists>x. copied sourceBase g a (relative @ [c]) x
                     \<and> strict_prefix q (targetBase @ (relative @ [c]) @ x))"
            then obtain x where x: "lookup a q = None" "lookup b q = Some Dir"
              "copied sourceBase g a (relative @ [c]) x"
              "strict_prefix q (targetBase @ (relative @ [c]) @ x)" by blast
            have cx: "copied sourceBase g fs relative (c # x)"
              using x(3) True sa by (rule copied_child)
            have n: "lookup fs q = None" using ka x(1) by (rule kept_exists)
            have "strict_prefix q (targetBase @ relative @ c # x)" using x(4) by simp
            then show ?thesis unfolding written_def using cx n x(2) by blast
          qed
        qed
      qed
      show "?I b" using i1 i2 i3 by blast
    qed
    then show ?thesis by blast
  qed
qed

subsection \<open>The result does not depend on the order of the listings\<close>

lemma written_final:
  assumes run: "copyNotGitignoreTree n sourceBase targetBase relative g fs = Some (Ok fs')"
    and par: "sourceBase @ relative \<parallel> targetBase @ relative"
    and wf: "well_formed fs"
    and w: "written sourceBase targetBase g fs relative q v"
  shows "lookup fs' q = v"
  using w[unfolded written_def]
proof
  assume "\<exists>x. copied sourceBase g fs relative x
           \<and> q = landing fs (sourceBase @ relative @ x) (targetBase @ relative @ x)
           \<and> v = lookup fs (sourceBase @ relative @ x)"
  then obtain x where x: "copied sourceBase g fs relative x"
    "q = landing fs (sourceBase @ relative @ x) (targetBase @ relative @ x)"
    "v = lookup fs (sourceBase @ relative @ x)" by blast
  obtain c m where f: "lookup fs (sourceBase @ relative @ x) = Some (File c m)"
    using x(1) by (auto simp: copied_def isfile_iff)
  have "lookup fs' (landing fs (sourceBase @ relative @ x) (targetBase @ relative @ x))
          = Some (File c m)"
    using copy_post[where g = g and relative = relative and x = x, OF run par _ f] x(1)
    by (simp add: copied_def)
  then show ?thesis using x(2,3) f by simp
next
  assume "lookup fs q = None \<and> v = Some Dir
      \<and> (\<exists>x. copied sourceBase g fs relative x \<and> strict_prefix q (targetBase @ relative @ x))"
  then obtain x where x: "v = Some Dir" "copied sourceBase g fs relative x"
    "strict_prefix q (targetBase @ relative @ x)" by blast
  obtain c m where f: "lookup fs (sourceBase @ relative @ x) = Some (File c m)"
    using x(2) by (auto simp: copied_def isfile_iff)
  have d: "isdir fs' (butlast (targetBase @ relative @ x))"
    using copy_post[where g = g and relative = relative and x = x, OF run par _ f] x(2)
    by (simp add: copied_def)
  have "well_formed fs'" using well_formed_copy[OF run wf] by simp
  then have "isdir fs' q" using d x(3) by (rule well_formed_to_parent)
  then show ?thesis using x(1) by (simp add: isdir_def)
qed

lemma written_cong:
  assumes "\<forall>q. lookup a q = lookup b q"
  shows "written sourceBase targetBase g a relative q v = written sourceBase targetBase g b relative q v"
proof -
  have d: "\<And>p. isdir a p = isdir b p" using assms by (simp add: isdir_def)
  have f: "\<And>p. isfile a p = isfile b p" using assms by (simp add: isfile_def)
  have r: "\<And>p x. reach a p x = reach b p x" using d by (simp add: reach_def)
  have l: "\<And>s t. landing a s t = landing b s t" using d by (simp add: landing_def)
  have c: "\<And>x. copied sourceBase g a relative x = copied sourceBase g b relative x"
    using r f by (simp add: copied_def)
  show ?thesis unfolding written_def using assms c l by simp
qed

lemma well_formed_cong:
  assumes "\<forall>q. lookup a q = lookup b q" "well_formed a"
  shows "well_formed b"
  using assms by (simp add: well_formed_def isdir_def path_exists_def)

lemma copy_order_independent:
  assumes eq: "\<forall>q. lookup fsA q = lookup fsB q"
    and wf: "well_formed fsA"
    and par: "sourceBase @ relative \<parallel> targetBase @ relative"
    and runA: "copyNotGitignoreTree n sourceBase targetBase relative g fsA = Some (Ok fsA')"
    and runB: "copyNotGitignoreTree m sourceBase targetBase relative g fsB = Some (Ok fsB')"
  shows "lookup fsA' q = lookup fsB' q"
proof -
  have wfB: "well_formed fsB" using eq wf by (rule well_formed_cong)
  note wc = written_cong[OF eq, of sourceBase targetBase g relative]
  show ?thesis
  proof (cases "lookup fsA' q = lookup fsA q")
    case A: True
    show ?thesis
    proof (cases "lookup fsB' q = lookup fsB q")
      case True
      then show ?thesis using A eq by simp
    next
      case False
      then have "written sourceBase targetBase g fsB relative q (lookup fsB' q)"
        using copy_written[OF runB par] by blast
      then have "written sourceBase targetBase g fsA relative q (lookup fsB' q)"
        using wc by simp
      then have "lookup fsA' q = lookup fsB' q"
        using written_final[OF runA par wf] by blast
      then show ?thesis .
    qed
  next
    case False
    then have "written sourceBase targetBase g fsA relative q (lookup fsA' q)"
      using copy_written[OF runA par] by blast
    then have "written sourceBase targetBase g fsB relative q (lookup fsA' q)"
      using wc by simp
    then have "lookup fsB' q = lookup fsA' q"
      using written_final[OF runB par wfB] by blast
    then show ?thesis by simp
  qed
qed

subsection \<open>Two listings of one tree\<close>

lemma unsorted_sorted_same_tree: "lookup unsorted_fs q = lookup sorted_fs q"
  by (simp add: lookup_def unsorted_fs_def sorted_fs_def)

lemma unsorted_well_formed: "well_formed unsorted_fs"
  by (auto simp: well_formed_def path_exists_def isdir_def lookup_def unsorted_fs_def
      split: if_splits)

lemma unsorted_run:
  "copyNotGitignoreTree 3 [''src''] [''dst''] [''d''] log_excluded unsorted_fs =
     Some (Ok (unsorted_fs @
       [([''dst'', ''d''], Dir),
        ([''dst'', ''d'', ''b.txt''], File ''bb'' \<lparr>st_mtime = 1700000000, st_mode = 420\<rparr>),
        ([''dst'', ''d'', ''a.txt''], File ''aa'' \<lparr>st_mtime = 1700000001, st_mode = 420\<rparr>)]))"
  by code_simp

lemma sorted_run:
  "copyNotGitignoreTree 3 [''src''] [''dst''] [''d''] log_excluded sorted_fs =
     Some (Ok (sorted_fs @
       [([''dst'', ''d''], Dir),
        ([''dst'', ''d'', ''a.txt''], File ''aa'' \<lparr>st_mtime = 1700000001, st_mode = 420\<rparr>),
        ([''dst'', ''d'', ''b.txt''], File ''bb'' \<lparr>st_mtime = 1700000000, st_mode = 420\<rparr>)]))"
  by code_simp

section \<open>A missing source\<close>

text \<open>
  C8. A source path that does not exist is no directory, so the call takes the file
  branch; when the exclusion predicate holds of the relative path the call returns at
  once, with no error and with the file system as it was.
\<close>

theorem missing_excluded_source_is_noop:
  assumes "\<not> path_exists fs (sourceBase @ relative)"
    and "gitignore relative"
  shows "copyNotGitignoreTree (Suc n) sourceBase targetBase relative gitignore fs = Some (Ok fs)"
proof -
  have "\<not> isdir fs (sourceBase @ relative)"
    using assms(1) by (simp add: path_exists_def isdir_def)
  then show ?thesis
    using assms(2) by (rule copy_excluded)
qed

theorem missing_excluded_source_is_noop_witness:
  "\<not> path_exists example_fs ([''src''] @ [''a'', ''gone.log''])
   \<and> log_excluded [''a'', ''gone.log'']
   \<and> copyNotGitignoreTree (Suc 0) [''src''] [''dst''] [''a'', ''gone.log''] log_excluded example_fs
       = Some (Ok example_fs)"
  using missing_excluded_source_is_noop
    [of example_fs "[''src'']" "[''a'', ''gone.log'']" log_excluded 0 "[''dst'']"]
  by (simp add: example_fs_def log_excluded_def path_exists_def lookup_def)




section \<open>Directories and the exclusion predicate\<close>



section \<open>Excluded files\<close>




section \<open>Nothing to copy\<close>



section \<open>Termination\<close>



section \<open>What the copier leaves alone\<close>

text \<open>
  The claim C6 as it is written fails where a directory sits at the mirrored path of a
  file: \<^verbatim>\<open>shutil.copy2\<close> then writes the entry of the file's base name inside that
  directory. The only entry visited is \<^verbatim>\<open>f\<close>, its mirrored path is \<^verbatim>\<open>dst/f\<close>, and the
  file \<^verbatim>\<open>dst/f/f\<close>, which was there before and mirrors nothing, is overwritten.
\<close>

theorem unrelated_file_overwritten_counterexample:
  "lookup occupied_fs [''dst'', ''f'', ''f'']
     = Some (File ''old'' \<lparr>st_mtime = 1600000000, st_mode = 384\<rparr>)
   \<and> copyNotGitignoreTree 2 [''src''] [''dst''] [''f''] log_excluded occupied_fs =
       Some (Ok [([''src''], Dir),
                 ([''src'', ''f''], File ''new'' \<lparr>st_mtime = 1700000000, st_mode = 420\<rparr>),
                 ([''dst''], Dir),
                 ([''dst'', ''f''], Dir),
                 ([''dst'', ''f'', ''f''], File ''new'' \<lparr>st_mtime = 1700000000, st_mode = 420\<rparr>)])
   \<and> [''dst''] @ [''f''] \<noteq> [''dst'', ''f'', ''f'']
   \<and> \<not> path_exists occupied_fs ([''src''] @ [''f'', ''f''])"
  by code_simp

text \<open>
  C6, as the code has it. Whatever the run does and however it ends, a directory stays a
  directory and a file stays a file (nothing is deleted); an entry that changes lies at
  or below the target path, or it is a missing directory on the way to the target path
  that is now made. When neither of the source path and the target path is a prefix of
  the other, nothing at or below the source path changes, and a run that completes has
  changed only what it had to write: the landing place of each file it copied (the
  mirrored path, or the entry of the file's base name inside a directory that sat there),
  and the missing directories on the way to a copied file's mirrored path.
\<close>

theorem copier_frame:
  assumes "copyNotGitignoreTree n sourceBase targetBase relative gitignore fs = Some r"
  shows "(\<forall>q. (isdir fs q \<longrightarrow> isdir (state_of r) q) \<and> (isfile fs q \<longrightarrow> isfile (state_of r) q))
       \<and> (\<forall>q. lookup (state_of r) q \<noteq> lookup fs q \<longrightarrow>
              prefix (targetBase @ relative) q \<or>
              (lookup fs q = None \<and> lookup (state_of r) q = Some Dir
               \<and> strict_prefix q (targetBase @ relative)))
       \<and> (sourceBase @ relative \<parallel> targetBase @ relative \<longrightarrow>
            (\<forall>q. prefix (sourceBase @ relative) q \<longrightarrow> lookup (state_of r) q = lookup fs q))
       \<and> (sourceBase @ relative \<parallel> targetBase @ relative \<and> r = Ok (state_of r) \<longrightarrow>
            (\<forall>q. lookup (state_of r) q \<noteq> lookup fs q \<longrightarrow>
                 written sourceBase targetBase gitignore fs relative q (lookup (state_of r) q)))"
proof -
  have k: "kept fs (state_of r)" using assms by (rule kept_copy)
  have c: "confined (targetBase @ relative) fs (state_of r)" using assms by (rule confined_copy)
  have a: "\<forall>q. (isdir fs q \<longrightarrow> isdir (state_of r) q) \<and> (isfile fs q \<longrightarrow> isfile (state_of r) q)"
    using k by (simp add: kept_def)
  have b: "\<forall>q. lookup (state_of r) q \<noteq> lookup fs q \<longrightarrow>
              prefix (targetBase @ relative) q \<or>
              (lookup fs q = None \<and> lookup (state_of r) q = Some Dir
               \<and> strict_prefix q (targetBase @ relative))"
    using c unfolding confined_def by blast
  have d: "sourceBase @ relative \<parallel> targetBase @ relative \<longrightarrow>
            (\<forall>q. prefix (sourceBase @ relative) q \<longrightarrow> lookup (state_of r) q = lookup fs q)"
    using confined_apart[OF c] by blast
  have e: "sourceBase @ relative \<parallel> targetBase @ relative \<and> r = Ok (state_of r) \<longrightarrow>
            (\<forall>q. lookup (state_of r) q \<noteq> lookup fs q \<longrightarrow>
                 written sourceBase targetBase gitignore fs relative q (lookup (state_of r) q))"
  proof (intro impI, elim conjE)
    assume p: "sourceBase @ relative \<parallel> targetBase @ relative" and ok: "r = Ok (state_of r)"
    have run: "copyNotGitignoreTree n sourceBase targetBase relative gitignore fs
                 = Some (Ok (state_of r))"
      using assms ok by simp
    show "\<forall>q. lookup (state_of r) q \<noteq> lookup fs q \<longrightarrow>
                 written sourceBase targetBase gitignore fs relative q (lookup (state_of r) q)"
      using run p by (rule copy_written)
  qed
  show ?thesis using a b d e by blast
qed

theorem copier_frame_witness:
  "lookup (prefilled_fs @
         [([''dst'', ''a'', ''b.txt''], File ''hello'' \<lparr>st_mtime = 1700000000, st_mode = 420\<rparr>)])
      [''dst'', ''a'', ''ignore.log'']
     = Some (File ''kept'' \<lparr>st_mtime = 1600000000, st_mode = 420\<rparr>)
   \<and> lookup (prefilled_fs @
         [([''dst'', ''a'', ''b.txt''], File ''hello'' \<lparr>st_mtime = 1700000000, st_mode = 420\<rparr>)])
      [''src'', ''a'', ''b.txt'']
     = Some (File ''hello'' \<lparr>st_mtime = 1700000000, st_mode = 420\<rparr>)"
proof -
  let ?fs' = "prefilled_fs @
         [([''dst'', ''a'', ''b.txt''], File ''hello'' \<lparr>st_mtime = 1700000000, st_mode = 420\<rparr>)]"
  have run: "copyNotGitignoreTree 3 [''src''] [''dst''] [''a''] log_excluded prefilled_fs = Some (Ok ?fs')"
    by code_simp
  have p: "[''src''] @ [''a''] \<parallel> [''dst''] @ [''a'']" by (simp add: parallel_def)
  have f: "isfile prefilled_fs [''dst'', ''a'', ''ignore.log'']"
    by (simp add: isfile_def lookup_def prefilled_fs_def)
  have pre: "prefix ([''src''] @ [''a'']) [''src'', ''a'', ''b.txt'']" by simp
  have l0: "lookup prefilled_fs [''src'', ''a'', ''b.txt'']
     = Some (File ''hello'' \<lparr>st_mtime = 1700000000, st_mode = 420\<rparr>)"
    by (simp add: lookup_def prefilled_fs_def)
  have "sourceBase @ relative \<parallel> targetBase @ relative \<longrightarrow>
      (\<forall>q. prefix (sourceBase @ relative) q \<longrightarrow> lookup (state_of r) q = lookup fs q)"
    if "copyNotGitignoreTree n sourceBase targetBase relative gitignore fs = Some r"
    for n sourceBase targetBase relative gitignore fs r
    using copier_frame[OF that] by blast
  from this[OF run]
  have "lookup ?fs' [''src'', ''a'', ''b.txt''] = lookup prefilled_fs [''src'', ''a'', ''b.txt'']"
    using p pre by simp
  moreover have "lookup ?fs' [''dst'', ''a'', ''ignore.log'']
     = Some (File ''kept'' \<lparr>st_mtime = 1600000000, st_mode = 420\<rparr>)"
    by (simp add: lookup_def prefilled_fs_def)
  ultimately show ?thesis using l0 by simp
qed

section \<open>Copied files\<close>




section \<open>Running the copy twice\<close>




section \<open>The order of the walk\<close>

text \<open>
  The claim C9 as it is written fails: the children are taken in the order
  \<^verbatim>\<open>os.listdir\<close> returns them, and the code does not sort them. Two file systems that
  hold the same tree hand out the names of \<^verbatim>\<open>src/d\<close> in different orders; the first
  order is not the lexicographic one, the copier follows each, and the destination
  directories it leaves list their entries in different orders.
\<close>

theorem listing_order_not_lexicographic_counterexample:
  "lookup unsorted_fs = lookup sorted_fs
   \<and> listdir unsorted_fs ([''src''] @ [''d'']) = [''b.txt'', ''a.txt'']
   \<and> \<not> sorted (listdir unsorted_fs ([''src''] @ [''d'']))
   \<and> copyNotGitignoreTree 3 [''src''] [''dst''] [''d''] log_excluded unsorted_fs =
     Some (Ok (unsorted_fs @
       [([''dst'', ''d''], Dir),
        ([''dst'', ''d'', ''b.txt''], File ''bb'' \<lparr>st_mtime = 1700000000, st_mode = 420\<rparr>),
        ([''dst'', ''d'', ''a.txt''], File ''aa'' \<lparr>st_mtime = 1700000001, st_mode = 420\<rparr>)]))
   \<and> copyNotGitignoreTree 3 [''src''] [''dst''] [''d''] log_excluded sorted_fs =
     Some (Ok (sorted_fs @
       [([''dst'', ''d''], Dir),
        ([''dst'', ''d'', ''a.txt''], File ''aa'' \<lparr>st_mtime = 1700000001, st_mode = 420\<rparr>),
        ([''dst'', ''d'', ''b.txt''], File ''bb'' \<lparr>st_mtime = 1700000000, st_mode = 420\<rparr>)]))
   \<and> listdir (unsorted_fs @
       [([''dst'', ''d''], Dir),
        ([''dst'', ''d'', ''b.txt''], File ''bb'' \<lparr>st_mtime = 1700000000, st_mode = 420\<rparr>),
        ([''dst'', ''d'', ''a.txt''], File ''aa'' \<lparr>st_mtime = 1700000001, st_mode = 420\<rparr>)])
       [''dst'', ''d''] = [''b.txt'', ''a.txt'']
   \<and> listdir (sorted_fs @
       [([''dst'', ''d''], Dir),
        ([''dst'', ''d'', ''a.txt''], File ''aa'' \<lparr>st_mtime = 1700000001, st_mode = 420\<rparr>),
        ([''dst'', ''d'', ''b.txt''], File ''bb'' \<lparr>st_mtime = 1700000000, st_mode = 420\<rparr>)])
       [''dst'', ''d''] = [''a.txt'', ''b.txt'']"
proof -
  have a: "lookup unsorted_fs = lookup sorted_fs"
    by (rule ext) (rule unsorted_sorted_same_tree)
  have b: "listdir unsorted_fs ([''src''] @ [''d'']) = [''b.txt'', ''a.txt'']"
    by code_simp
  have c: "\<not> sorted (listdir unsorted_fs ([''src''] @ [''d'']))"
    by code_simp
  have d: "listdir (unsorted_fs @
       [([''dst'', ''d''], Dir),
        ([''dst'', ''d'', ''b.txt''], File ''bb'' \<lparr>st_mtime = 1700000000, st_mode = 420\<rparr>),
        ([''dst'', ''d'', ''a.txt''], File ''aa'' \<lparr>st_mtime = 1700000001, st_mode = 420\<rparr>)])
       [''dst'', ''d''] = [''b.txt'', ''a.txt'']"
    by code_simp
  have e: "listdir (sorted_fs @
       [([''dst'', ''d''], Dir),
        ([''dst'', ''d'', ''a.txt''], File ''aa'' \<lparr>st_mtime = 1700000001, st_mode = 420\<rparr>),
        ([''dst'', ''d'', ''b.txt''], File ''bb'' \<lparr>st_mtime = 1700000000, st_mode = 420\<rparr>)])
       [''dst'', ''d''] = [''a.txt'', ''b.txt'']"
    by code_simp
  show ?thesis using a b c d e unsorted_run sorted_run by blast
qed

text \<open>
  C9, as the code has it. The order of the walk is the order of the listings, whatever
  that is. What is reproducible is the tree: for two file systems that hold the same
  well-formed tree, with neither of the source path and the target path a prefix of the
  other, two completed runs with the same exclusion predicate leave the same entry at
  every path, with the same content and metadata.
\<close>

theorem output_independent_of_listing_order:
  assumes "\<forall>q. lookup fsA q = lookup fsB q"
    and "well_formed fsA"
    and "sourceBase @ relative \<parallel> targetBase @ relative"
    and "copyNotGitignoreTree n sourceBase targetBase relative gitignore fsA = Some (Ok fsA')"
    and "copyNotGitignoreTree m sourceBase targetBase relative gitignore fsB = Some (Ok fsB')"
  shows "\<forall>q. lookup fsA' q = lookup fsB' q"
  using copy_order_independent[where g = gitignore and relative = relative, OF assms] by blast

theorem output_independent_of_listing_order_witness:
  "lookup (unsorted_fs @
       [([''dst'', ''d''], Dir),
        ([''dst'', ''d'', ''b.txt''], File ''bb'' \<lparr>st_mtime = 1700000000, st_mode = 420\<rparr>),
        ([''dst'', ''d'', ''a.txt''], File ''aa'' \<lparr>st_mtime = 1700000001, st_mode = 420\<rparr>)])
   = lookup (sorted_fs @
       [([''dst'', ''d''], Dir),
        ([''dst'', ''d'', ''a.txt''], File ''aa'' \<lparr>st_mtime = 1700000001, st_mode = 420\<rparr>),
        ([''dst'', ''d'', ''b.txt''], File ''bb'' \<lparr>st_mtime = 1700000000, st_mode = 420\<rparr>)])"
proof -
  have h1: "\<forall>q. lookup unsorted_fs q = lookup sorted_fs q"
    using unsorted_sorted_same_tree by blast
  have h3: "[''src''] @ [''d''] \<parallel> [''dst''] @ [''d'']" by (simp add: parallel_def)
  show ?thesis
    using output_independent_of_listing_order[where gitignore = log_excluded
        and relative = "[''d'']", OF h1 unsorted_well_formed h3 unsorted_run sorted_run]
    by blast
qed

end
